theory Spec2Isabelle
  imports Main
begin

section \<open>Go integers\<close>

text \<open>
  The package computes with Go's \<open>int\<close> and stores start indexes as \<open>uint32\<close>.
  \<open>int\<close> is taken to be 64 bits wide (amd64, arm64).  A value of type \<open>int\<close> is
  modelled as a HOL integer in the range \<open>-2^63 \<le> x < 2^63\<close>; every arithmetic
  operation wraps its mathematical result back into that range, as Go does.
\<close>

definition wrap64 :: "int \<Rightarrow> int" where
  "wrap64 x = (x + 2 ^ 63) mod 2 ^ 64 - 2 ^ 63"

definition add64 :: "int \<Rightarrow> int \<Rightarrow> int" where
  "add64 a b = wrap64 (a + b)"

definition sub64 :: "int \<Rightarrow> int \<Rightarrow> int" where
  "sub64 a b = wrap64 (a - b)"

definition mul64 :: "int \<Rightarrow> int \<Rightarrow> int" where
  "mul64 a b = wrap64 (a * b)"

text \<open>\<open>k << 1\<close> on an \<open>int\<close>: the top bit is shifted out.\<close>

definition shl1 :: "int \<Rightarrow> int" where
  "shl1 k = wrap64 (k * 2)"

text \<open>The conversion \<open>uint32(x)\<close> keeps the low 32 bits.\<close>

definition uint32 :: "int \<Rightarrow> int" where
  "uint32 x = x mod 2 ^ 32"

text \<open>
  Go's \<open>/\<close> truncates towards zero and \<open>%\<close> takes the sign of the dividend;
  both are given here for a divisor that is not zero.
\<close>

definition go_quot :: "int \<Rightarrow> int \<Rightarrow> int" where
  "go_quot a b = wrap64 (sgn a * sgn b * (\<bar>a\<bar> div \<bar>b\<bar>))"

definition go_rem :: "int \<Rightarrow> int \<Rightarrow> int" where
  "go_rem a b = sgn a * (\<bar>a\<bar> mod \<bar>b\<bar>)"

section \<open>Outcomes of a call\<close>

text \<open>
  A call returns a value, stops with a run-time panic, or never returns.
\<close>

datatype panic = DivideByZero

datatype 'a go = Ret 'a | Panic panic | Diverge

fun go_bind :: "'a go \<Rightarrow> ('a \<Rightarrow> 'b go) \<Rightarrow> 'b go" where
  "go_bind (Ret x) f = f x"
| "go_bind (Panic p) f = Panic p"
| "go_bind Diverge f = Diverge"

text \<open>\<open>a / b\<close> and \<open>a % b\<close> panic with "integer divide by zero" when \<open>b = 0\<close>.\<close>

definition go_div :: "int \<Rightarrow> int \<Rightarrow> int go" where
  "go_div a b = (if b = 0 then Panic DivideByZero else Ret (go_quot a b))"

definition go_mod :: "int \<Rightarrow> int \<Rightarrow> int go" where
  "go_mod a b = (if b = 0 then Panic DivideByZero else Ret (go_rem a b))"

section \<open>The helpers\<close>

text \<open>
  \<open>roundUpBy\<close>: the \<open>switch\<close> tests \<open>cursor == 0\<close> first, so \<open>cursor % v\<close> is
  evaluated only for a cursor that is not zero.
\<close>

definition roundUpBy :: "int \<Rightarrow> int \<Rightarrow> int go" where
  "roundUpBy cursor v =
     (if cursor = 0 then Ret cursor
      else go_bind (go_mod cursor v) (\<lambda>r.
        if r = 0 then Ret cursor
        else go_bind (go_div cursor v) (\<lambda>q. Ret (mul64 (add64 q 1) v))))"

text \<open>
  The loop \<open>for k < v { k = k << 1 }\<close> of \<open>nextPowerOfTwo\<close>.  It need not end:
  \<open>None\<close> stands for a loop that runs forever.
\<close>

partial_function (option) nextPowerOfTwo_loop :: "int \<Rightarrow> int \<Rightarrow> int option" where
  "nextPowerOfTwo_loop k v =
     (if k < v then nextPowerOfTwo_loop (shl1 k) v else Some k)"

declare nextPowerOfTwo_loop.simps [code]

definition nextPowerOfTwo :: "int \<Rightarrow> int go" where
  "nextPowerOfTwo v =
     (case nextPowerOfTwo_loop 1 v of None \<Rightarrow> Diverge | Some k \<Rightarrow> Ret k)"

definition nextLowestPowerOfTwo :: "int \<Rightarrow> int go" where
  "nextLowestPowerOfTwo v =
     go_bind (nextPowerOfTwo v) (\<lambda>c.
       if c = v then Ret c else Ret (go_quot c 2))"

section \<open>The aligner\<close>

text \<open>
  In \<open>cursor == 0 || cursor%k == 0\<close> the right operand is evaluated only when the
  left one is false.
\<close>

definition NextAlignedPowerOfTwo :: "int \<Rightarrow> int \<Rightarrow> int \<Rightarrow> (int \<times> bool) go" where
  "NextAlignedPowerOfTwo cursor msgLen k =
     (if cursor = 0 then Ret (cursor, True)
      else go_bind (go_mod cursor k) (\<lambda>r.
        if r = 0 then Ret (cursor, True)
        else go_bind (nextLowestPowerOfTwo msgLen) (\<lambda>nextLowest.
          go_bind (go_div cursor k) (\<lambda>q.
            let endOfCurrentRow = mul64 (add64 q 1) k in
            go_bind (roundUpBy cursor nextLowest) (\<lambda>cursor'.
              if add64 cursor' msgLen \<le> endOfCurrentRow then Ret (cursor', True)
              else if add64 cursor' nextLowest \<le> endOfCurrentRow then Ret (cursor', False)
              else Ret (endOfCurrentRow, False))))))"

section \<open>The packer\<close>

text \<open>
  The loop of \<open>MsgSharesUsedNIDefaults\<close>: \<open>i\<close> is the position in \<open>msgShareLens\<close>,
  \<open>indexes\<close> the slice made with \<open>len(msgShareLens)\<close> zeros, and the last argument
  the lengths still to come.
\<close>

fun MsgSharesUsedNIDefaults_loop ::
  "int \<Rightarrow> int \<Rightarrow> nat \<Rightarrow> int list \<Rightarrow> int list \<Rightarrow> (int \<times> int list) go" where
  "MsgSharesUsedNIDefaults_loop cursor k i indexes [] = Ret (cursor, indexes)"
| "MsgSharesUsedNIDefaults_loop cursor k i indexes (msgLen # rest) =
     go_bind (NextAlignedPowerOfTwo cursor msgLen k) (\<lambda>(c, _).
       MsgSharesUsedNIDefaults_loop (add64 c msgLen) k (Suc i)
         (indexes[i := uint32 c]) rest)"

definition MsgSharesUsedNIDefaults :: "int \<Rightarrow> int \<Rightarrow> int list \<Rightarrow> (int \<times> int list) go" where
  "MsgSharesUsedNIDefaults cursor origSquareSize msgShareLens =
     go_bind
       (MsgSharesUsedNIDefaults_loop cursor origSquareSize 0
          (replicate (length msgShareLens) 0) msgShareLens)
       (\<lambda>(c, indexes). Ret (sub64 c cursor, indexes))"

text \<open>
  \<open>FitsInSquare\<close>: \<open>cursor/origSquareSize\<close> is evaluated only when there are no
  message lengths.
\<close>

definition FitsInSquare :: "int \<Rightarrow> int \<Rightarrow> int list \<Rightarrow> bool go" where
  "FitsInSquare cursor origSquareSize msgShareLens =
     go_bind
       (if msgShareLens = []
        then go_bind (go_div cursor origSquareSize) (\<lambda>row. Ret (row \<le> origSquareSize))
        else Ret False)
       (\<lambda>trivial.
          if trivial then Ret True
          else go_bind (MsgSharesUsedNIDefaults cursor origSquareSize msgShareLens)
            (\<lambda>(sharesUsed, _).
               Ret (add64 cursor sharesUsed \<le> mul64 origSquareSize origSquareSize)))"

section \<open>The splitter\<close>

text \<open>A message as the splitter reads it: a namespace and the payload bytes.\<close>

record Message =
  NamespaceID :: "nat list"
  Data :: "nat list"

text \<open>
  Modelled from the spec: the share-serialization codec (\<open>MsgSharesUsed\<close>,
  \<open>NewMessageShareSplitter\<close>, \<open>WriteNamespacedPaddedShares\<close>, \<open>Write\<close>,
  \<open>Export().RawShares()\<close>) is not among the sources.  The spec calls it an external
  collaborator whose steps are total, so its operations are parameters here: total
  functions on a splitter state \<open>'s\<close>.  The exported \<open>[][]byte\<close> is an option, with
  \<open>None\<close> for Go's \<open>nil\<close>.
\<close>

record 's codec =
  MsgSharesUsed :: "int \<Rightarrow> int"
  NewMessageShareSplitter :: "'s"
  WriteNamespacedPaddedShares :: "int \<Rightarrow> 's \<Rightarrow> 's"
  Write :: "Message \<Rightarrow> 's \<Rightarrow> 's"
  ExportRawShares :: "'s \<Rightarrow> nat list list option"

datatype error = SquareSizeTooSmall

type_synonym split_result = "nat list list option \<times> int list option \<times> error option"

text \<open>
  The loop of \<open>SplitMessagesUsingNIDefaults\<close> with its state (\<open>cursor\<close>, \<open>indexes\<close>,
  \<open>splitter\<close>) and the \<open>return\<close> that follows it.
\<close>

fun SplitMessagesUsingNIDefaults_loop ::
  "'s codec \<Rightarrow> int \<Rightarrow> int \<Rightarrow> int list \<Rightarrow> 's \<Rightarrow> Message list \<Rightarrow> split_result go" where
  "SplitMessagesUsingNIDefaults_loop cd cursor k indexes splitter [] =
     Ret (ExportRawShares cd splitter, Some indexes, None)"
| "SplitMessagesUsingNIDefaults_loop cd cursor k indexes splitter (msg # msgs) =
     go_bind (go_div cursor k) (\<lambda>row.
       if row > k then Ret (None, None, Some SquareSizeTooSmall)
       else
         let msgShares = MsgSharesUsed cd (int (length (Data msg))) in
         go_bind (NextAlignedPowerOfTwo cursor msgShares k) (\<lambda>(nextCursor, _).
           SplitMessagesUsingNIDefaults_loop cd (add64 nextCursor msgShares) k
             (indexes @ [uint32 nextCursor])
             (Write cd msg
                (WriteNamespacedPaddedShares cd (sub64 nextCursor cursor) splitter))
             msgs))"

definition SplitMessagesUsingNIDefaults ::
  "'s codec \<Rightarrow> int \<Rightarrow> int \<Rightarrow> Message list \<Rightarrow> split_result go" where
  "SplitMessagesUsingNIDefaults cd cursor origSquareSize msgs =
     SplitMessagesUsingNIDefaults_loop cd cursor origSquareSize [uint32 cursor]
       (NewMessageShareSplitter cd) msgs"

section \<open>Definitions used in the statements and proofs\<close>

text \<open>
  The values the loop of \<open>nextPowerOfTwo\<close> runs through once it has started from 1:
  the powers of two up to \<open>2^62\<close>, then \<open>-2^63\<close>, then 0 for ever.
\<close>

definition overflow_orbit :: "int \<Rightarrow> bool" where
  "overflow_orbit k \<longleftrightarrow> k = 0 \<or> k = - (2 ^ 63) \<or> (\<exists>i\<le>62. k = 2 ^ i)"

text \<open>
  The aligner as the specification words it (steps 1 to 7 of its algorithm), over the
  mathematical integers, for a given \<open>nextLowest\<close>: the end of the current row is
  \<open>((cursor / k) + 1) * k\<close> and the candidate is the cursor rounded up to the next
  multiple of \<open>nextLowest\<close>.
\<close>

definition aligned_start_spec :: "int \<Rightarrow> int \<Rightarrow> int \<Rightarrow> int \<Rightarrow> int \<times> bool" where
  "aligned_start_spec cursor msgShareLen k nextLowest =
     (if cursor mod k = 0 then (cursor, True)
      else
        let endOfRow = (cursor div k + 1) * k;
            candidate = (cursor + nextLowest - 1) div nextLowest * nextLowest
        in if candidate + msgShareLen \<le> endOfRow then (candidate, True)
           else if candidate + nextLowest \<le> endOfRow then (candidate, False)
           else (endOfRow, False))"

text \<open>
  The start indexes of a packing pass, read as numbers: each start is at or after the
  cursor at the time its message is considered, and that cursor is the previous start
  plus the previous message's share count (the input cursor for the first message).
\<close>

fun starts_from :: "int \<Rightarrow> int list \<Rightarrow> int list \<Rightarrow> bool" where
  "starts_from c [] [] = True"
| "starts_from c (m # ms) (s # ss) = (c \<le> s \<and> starts_from (s + m) ms ss)"
| "starts_from c [] (s # ss) = False"
| "starts_from c (m # ms) [] = False"


text \<open>
  A small codec and messages for running the splitter on concrete inputs.  A message
  of \<open>n\<close> bytes counts as the shares of four bytes that hold it after one length
  byte.  The splitter state is the list of what has been written: an empty entry for
  each padding share and one entry, the payload, for each message.
\<close>

definition example_codec :: "nat list list codec" where
  "example_codec =
     \<lparr> MsgSharesUsed = (\<lambda>n. (n + 1 + 3) div 4),
       NewMessageShareSplitter = [],
       WriteNamespacedPaddedShares = (\<lambda>count shares. shares @ replicate (nat count) []),
       Write = (\<lambda>msg shares. shares @ [Data msg]),
       ExportRawShares = Some \<rparr>"

definition example_message :: "nat \<Rightarrow> Message" where
  "example_message n = \<lparr> NamespaceID = [1], Data = replicate n 0 \<rparr>"

section \<open>Arithmetic of the model\<close>

lemma wrap64_id: "- (2 ^ 63) \<le> x \<Longrightarrow> x < 2 ^ 63 \<Longrightarrow> wrap64 x = x"
  by (simp add: wrap64_def)

lemma go_quot_nonneg:
  assumes "0 \<le> a" "a < 2 ^ 63" "0 < b"
  shows "go_quot a b = a div b"
proof -
  have "0 \<le> a div b" using assms by (simp add: pos_imp_zdiv_nonneg_iff)
  moreover have "a div b \<le> a"
    using assms by (cases "a = 0") (auto intro: int_div_le_self)
  ultimately have "wrap64 (a div b) = a div b" using assms by (intro wrap64_id) auto
  moreover have "sgn a * sgn b * (\<bar>a\<bar> div \<bar>b\<bar>) = a div b"
    using assms by (cases "a = 0") auto
  ultimately show ?thesis by (simp add: go_quot_def)
qed

lemma go_rem_nonneg: "0 \<le> a \<Longrightarrow> 0 < b \<Longrightarrow> go_rem a b = a mod b"
  by (cases "a = 0") (auto simp: go_rem_def)

lemma go_rem_eq_0_iff: "go_rem a b = 0 \<longleftrightarrow> b dvd a"
proof -
  have "go_rem a b = 0 \<longleftrightarrow> a = 0 \<or> \<bar>a\<bar> mod \<bar>b\<bar> = 0"
    by (simp add: go_rem_def sgn_eq_0_iff)
  also have "\<dots> \<longleftrightarrow> \<bar>b\<bar> dvd \<bar>a\<bar>"
    by (auto simp: dvd_eq_mod_eq_0)
  finally show ?thesis by simp
qed

lemma wrap64_dvd:
  assumes "(2::int) ^ j dvd x" "j \<le> 63"
  shows "2 ^ j dvd wrap64 x"
proof -
  have a: "(2::int) ^ j dvd 2 ^ 63" using assms(2) by (intro le_imp_power_dvd)
  have b: "(2::int) ^ j dvd 2 ^ 64" using assms(2) by (intro le_imp_power_dvd) simp
  have "(2::int) ^ j dvd (x + 2 ^ 63) mod 2 ^ 64"
    using assms(1) a b by (simp add: dvd_mod)
  then show ?thesis
    unfolding wrap64_def using a by (rule dvd_diff)
qed

lemma shl1_pow: "i < 62 \<Longrightarrow> shl1 (2 ^ i) = 2 ^ Suc i"
proof -
  assume "i < 62"
  then have "(2::int) ^ Suc i \<le> 2 ^ 62"
    by (intro power_increasing) auto
  moreover have "(0::int) < 2 ^ Suc i" by simp
  moreover have "\<And>x::int. x \<le> 2 ^ 62 \<Longrightarrow> 0 < x \<Longrightarrow> wrap64 x = x"
    by (simp add: wrap64_def)
  ultimately have "wrap64 (2 ^ Suc i) = 2 ^ Suc i"
    by blast
  then show ?thesis by (simp add: shl1_def mult.commute)
qed

lemma nextPowerOfTwo_loop_halts:
  assumes "i + d = 62" "v \<le> 2 ^ 62" "i = 0 \<or> 2 ^ (i - 1) < v"
  shows "\<exists>j. i \<le> j \<and> j \<le> 62 \<and> nextPowerOfTwo_loop (2 ^ i) v = Some (2 ^ j)
           \<and> v \<le> 2 ^ j \<and> (j = 0 \<or> 2 ^ (j - 1) < v)"
  using assms
proof (induction d arbitrary: i)
  case 0
  then have "i = 62" by simp
  with 0 have "nextPowerOfTwo_loop (2 ^ i) v = Some (2 ^ i)"
    by (subst nextPowerOfTwo_loop.simps) simp
  with 0 \<open>i = 62\<close> show ?case by (intro exI [of _ i]) simp
next
  case (Suc d)
  show ?case
  proof (cases "2 ^ i < v")
    case True
    from Suc.prems have "i < 62" by simp
    have "nextPowerOfTwo_loop (2 ^ i) v = nextPowerOfTwo_loop (2 ^ Suc i) v"
      using True shl1_pow [OF \<open>i < 62\<close>] by (subst nextPowerOfTwo_loop.simps) simp
    moreover from Suc.IH [of "Suc i"] Suc.prems True
    obtain j where "Suc i \<le> j" "j \<le> 62" "nextPowerOfTwo_loop (2 ^ Suc i) v = Some (2 ^ j)"
      "v \<le> 2 ^ j" "j = 0 \<or> 2 ^ (j - 1) < v"
      by auto
    ultimately show ?thesis by (intro exI [of _ j]) simp
  next
    case False
    then have "nextPowerOfTwo_loop (2 ^ i) v = Some (2 ^ i)"
      by (subst nextPowerOfTwo_loop.simps) simp
    with False Suc.prems show ?thesis by (intro exI [of _ i]) simp
  qed
qed

lemma nextPowerOfTwo_Ret:
  assumes "v \<le> 2 ^ 62"
  shows "\<exists>j\<le>62. nextPowerOfTwo v = Ret (2 ^ j) \<and> v \<le> 2 ^ j \<and> (j = 0 \<or> 2 ^ (j - 1) < v)"
proof -
  from nextPowerOfTwo_loop_halts [of 0 62 v] assms
  obtain j where "j \<le> 62" "nextPowerOfTwo_loop 1 v = Some (2 ^ j)"
    "v \<le> 2 ^ j" "j = 0 \<or> 2 ^ (j - 1) < v"
    by auto
  then show ?thesis by (auto simp: nextPowerOfTwo_def)
qed

lemma nextLowestPowerOfTwo_Ret:
  assumes "1 \<le> v" "v \<le> 2 ^ 62"
  shows "\<exists>j\<le>62. nextLowestPowerOfTwo v = Ret (2 ^ j) \<and> 2 ^ j \<le> v \<and> v < 2 * 2 ^ j"
proof -
  from nextPowerOfTwo_Ret [OF assms(2)]
  obtain j where j: "j \<le> 62" "nextPowerOfTwo v = Ret (2 ^ j)" "v \<le> 2 ^ j"
    "j = 0 \<or> 2 ^ (j - 1) < v"
    by auto
  show ?thesis
  proof (cases "2 ^ j = v")
    case True
    with j show ?thesis by (intro exI [of _ j]) (auto simp: nextLowestPowerOfTwo_def)
  next
    case False
    with j assms have "j \<noteq> 0" by (cases "j = 0") auto
    then obtain j' where j': "j = Suc j'" by (cases j) auto
    have "(2::int) ^ j \<le> 2 ^ 62" using j(1) by (intro power_increasing) auto
    then have "go_quot (2 ^ j) 2 = 2 ^ j div 2"
      by (intro go_quot_nonneg) auto
    then have "go_quot (2 ^ j) 2 = 2 ^ j'" by (simp add: j')
    with False j j' show ?thesis
      by (intro exI [of _ j']) (auto simp: nextLowestPowerOfTwo_def)
  qed
qed

lemma pow2_bracket_unique:
  fixes v :: int
  assumes "2 ^ a \<le> v" "v < 2 * 2 ^ a" "2 ^ b \<le> v" "v < 2 * 2 ^ b"
  shows "a = b"
proof -
  have "(2::int) ^ a < 2 ^ Suc b" using assms by simp
  then have "a < Suc b" by (simp only: power_strict_increasing_iff)
  moreover have "(2::int) ^ b < 2 ^ Suc a" using assms by simp
  then have "b < Suc a" by (simp only: power_strict_increasing_iff)
  ultimately show ?thesis by simp
qed

section \<open>The loop of nextPowerOfTwo that never ends\<close>

lemma overflow_orbit_shl1: "overflow_orbit k \<Longrightarrow> overflow_orbit (shl1 k)"
proof -
  assume "overflow_orbit k"
  then consider "k = 0" | "k = - (2 ^ 63)" | i where "i < 62" "k = 2 ^ i" | "k = 2 ^ 62"
    unfolding overflow_orbit_def by (metis le_neq_implies_less)
  then show ?thesis
  proof cases
    case 1 then show ?thesis by (simp add: overflow_orbit_def shl1_def wrap64_def)
  next
    case 2 then show ?thesis by (simp add: overflow_orbit_def shl1_def wrap64_def)
  next
    case 3
    then have "shl1 k = 2 ^ Suc i" by (simp only: shl1_pow)
    moreover have "Suc i \<le> 62" using 3 by simp
    ultimately show ?thesis unfolding overflow_orbit_def by blast
  next
    case 4 then show ?thesis by (simp add: overflow_orbit_def shl1_def wrap64_def)
  qed
qed

lemma overflow_orbit_le: "overflow_orbit k \<Longrightarrow> k \<le> 2 ^ 62"
proof -
  assume "overflow_orbit k"
  then consider "k = 0" | "k = - (2 ^ 63)" | i where "i \<le> 62" "k = 2 ^ i"
    unfolding overflow_orbit_def by blast
  then show ?thesis
  proof cases
    case 3
    then show ?thesis by (simp only: power_increasing_iff)
  qed simp_all
qed

lemma nextPowerOfTwo_loop_never:
  assumes "nextPowerOfTwo_loop k v = Some y"
  shows "\<not> (2 ^ 62 < v \<and> overflow_orbit k)"
proof (rule nextPowerOfTwo_loop.raw_induct
    [where P = "\<lambda>k v y. \<not> (2 ^ 62 < v \<and> overflow_orbit k)", OF _ assms])
  fix f :: "int \<Rightarrow> int \<Rightarrow> int option" and k v y :: int
  assume IH: "\<And>k v y. f k v = Some y \<Longrightarrow> \<not> (2 ^ 62 < v \<and> overflow_orbit k)"
    and step: "(if k < v then f (shl1 k) v else Some k) = Some y"
  show "\<not> (2 ^ 62 < v \<and> overflow_orbit k)"
  proof
    assume a: "2 ^ 62 < v \<and> overflow_orbit k"
    then have "k < v" using overflow_orbit_le [of k] by simp
    with step have "f (shl1 k) v = Some y" by simp
    from IH [OF this] a overflow_orbit_shl1 [of k] show False by simp
  qed
qed

lemma nextPowerOfTwo_Diverge: "2 ^ 62 < v \<Longrightarrow> nextPowerOfTwo v = Diverge"
proof -
  assume v: "2 ^ 62 < v"
  have "overflow_orbit 1" unfolding overflow_orbit_def by (intro disjI2 exI [of _ 0]) simp
  with v nextPowerOfTwo_loop_never [of 1 v] have "nextPowerOfTwo_loop 1 v = None"
    by (cases "nextPowerOfTwo_loop 1 v") auto
  then show ?thesis by (simp add: nextPowerOfTwo_def)
qed

section \<open>Rounding up and the end of a row\<close>

lemma round_up_cases:
  fixes c v :: int
  assumes "0 < v"
  shows "(c + v - 1) div v * v = (if c mod v = 0 then c else (c div v + 1) * v)"
proof -
  define q r where "q = c div v" and "r = c mod v"
  have c: "c = v * q + r" by (simp add: q_def r_def)
  have r: "0 \<le> r" "r < v" using assms by (auto simp: r_def)
  show ?thesis
  proof (cases "r = 0")
    case True
    have "(v * q + (v - 1)) div v = q + (v - 1) div v"
      using assms by (subst div_mult_self4) simp_all
    also have "(v - 1) div v = 0" using assms by simp
    finally have "(c + v - 1) div v = q" using c True by (simp add: algebra_simps)
    with True c show ?thesis by (simp add: r_def [symmetric] algebra_simps)
  next
    case False
    have "(v * (q + 1) + (r - 1)) div v = q + 1 + (r - 1) div v"
      using assms by (subst div_mult_self4) simp_all
    also have "(r - 1) div v = 0" using r False by simp
    finally have "(c + v - 1) div v = q + 1" using c by (simp add: algebra_simps)
    with False show ?thesis by (simp add: r_def [symmetric] q_def [symmetric])
  qed
qed

lemma round_up_bounds:
  fixes c v :: int
  assumes "0 < v"
  shows "c \<le> (c + v - 1) div v * v" "(c + v - 1) div v * v < c + v" "v dvd (c + v - 1) div v * v"
proof -
  have m: "(c + v - 1) div v * v = c + v - 1 - (c + v - 1) mod v"
    by (simp add: algebra_simps minus_mod_eq_mult_div [symmetric])
  have "0 \<le> (c + v - 1) mod v" "(c + v - 1) mod v < v" using assms by auto
  then show "c \<le> (c + v - 1) div v * v" "(c + v - 1) div v * v < c + v"
    unfolding m by linarith+
  show "v dvd (c + v - 1) div v * v" by simp
qed

lemma row_end_bounds:
  fixes c k :: int
  assumes "0 < k"
  shows "c < (c div k + 1) * k" "(c div k + 1) * k \<le> c + k"
proof -
  have m: "(c div k + 1) * k = c - c mod k + k"
    by (simp add: algebra_simps minus_mod_eq_mult_div [symmetric])
  have "0 \<le> c mod k" "c mod k < k" using assms by auto
  then show "c < (c div k + 1) * k" "(c div k + 1) * k \<le> c + k"
    unfolding m by linarith+
qed

lemma add64_id: "0 \<le> a + b \<Longrightarrow> a + b < 2 ^ 63 \<Longrightarrow> add64 a b = a + b"
  by (simp add: add64_def wrap64_def)

lemma mul64_id: "0 \<le> a * b \<Longrightarrow> a * b < 2 ^ 63 \<Longrightarrow> mul64 a b = a * b"
  by (simp add: mul64_def wrap64_def)

lemma row_end_Ret:
  assumes "0 \<le> c" "0 < k" "c + k < 2 ^ 63"
  shows "go_div c k = Ret (c div k)" "mul64 (add64 (c div k) 1) k = (c div k + 1) * k"
proof -
  have c: "c < 2 ^ 63" using assms by simp
  show "go_div c k = Ret (c div k)"
    using assms c by (simp add: go_div_def go_quot_nonneg)
  have q: "0 \<le> c div k" using assms by (simp add: pos_imp_zdiv_nonneg_iff)
  have e: "c < (c div k + 1) * k" "(c div k + 1) * k \<le> c + k"
    using row_end_bounds [OF assms(2), of c] by auto
  have "c div k \<le> c"
    using assms by (cases "c = 0") (auto intro: int_div_le_self)
  moreover have "c + 1 < 2 ^ 63" using assms by simp
  ultimately have "add64 (c div k) 1 = c div k + 1"
    using q by (intro add64_id) auto
  moreover have "mul64 (c div k + 1) k = (c div k + 1) * k"
    using e assms by (intro mul64_id) auto
  ultimately show "mul64 (add64 (c div k) 1) k = (c div k + 1) * k" by simp
qed

lemma roundUpBy_Ret:
  assumes "0 \<le> c" "0 < v" "c + v < 2 ^ 63"
  shows "roundUpBy c v = Ret ((c + v - 1) div v * v)"
proof (cases "c = 0")
  case True
  then show ?thesis using assms by (simp add: roundUpBy_def round_up_cases)
next
  case False
  have m: "go_mod c v = Ret (c mod v)"
    using assms by (simp add: go_mod_def go_rem_nonneg)
  show ?thesis
    using False assms m row_end_Ret [OF assms]
    by (simp add: roundUpBy_def round_up_cases)
qed

lemma nextLowestPowerOfTwo_eq:
  assumes "nl = 2 ^ j" "nl \<le> v" "v < 2 * nl" "v \<le> 2 ^ 62"
  shows "nextLowestPowerOfTwo v = Ret nl"
proof -
  have "(0::int) < 2 ^ j" by simp
  with assms have "1 \<le> v" by linarith
  from nextLowestPowerOfTwo_Ret [OF this assms(4)]
  obtain j' where j': "nextLowestPowerOfTwo v = Ret (2 ^ j')" "2 ^ j' \<le> v" "v < 2 * 2 ^ j'"
    by auto
  with assms have "j = j'" by (intro pow2_bracket_unique [of j v j']) auto
  with j' assms show ?thesis by simp
qed

lemma aligner_Ret:
  assumes "0 \<le> cursor" "k = 2 ^ n" "cursor + k < 2 ^ 63" "cursor + 2 * msgLen < 2 ^ 63"
    and "nl = 2 ^ j" "nl \<le> msgLen" "msgLen < 2 * nl"
  shows "NextAlignedPowerOfTwo cursor msgLen k =
    Ret (if cursor mod k = 0 then (cursor, True)
         else if (cursor + nl - 1) div nl * nl + msgLen \<le> (cursor div k + 1) * k
           then ((cursor + nl - 1) div nl * nl, True)
         else if (cursor + nl - 1) div nl * nl + nl \<le> (cursor div k + 1) * k
           then ((cursor + nl - 1) div nl * nl, False)
         else ((cursor div k + 1) * k, False))"
proof -
  have k: "0 < k" using assms(2) by simp
  have nl: "0 < nl" using assms(5) by simp
  have m: "go_mod cursor k = Ret (cursor mod k)"
    using assms(1) k by (simp add: go_mod_def go_rem_nonneg)
  have "msgLen \<le> 2 ^ 62" using assms(1,4) by simp
  then have low: "nextLowestPowerOfTwo msgLen = Ret nl"
    using assms by (intro nextLowestPowerOfTwo_eq [of nl j]) auto
  note e = row_end_Ret [OF assms(1) k assms(3)]
  have "cursor + nl < 2 ^ 63" using assms nl by linarith
  note r = roundUpBy_Ret [OF assms(1) nl this]
  define cand where "cand = (cursor + nl - 1) div nl * nl"
  have cand: "cursor \<le> cand" "cand < cursor + nl"
    using round_up_bounds [OF nl, of cursor] by (auto simp: cand_def)
  have a1: "add64 cand msgLen = cand + msgLen"
    using cand assms nl by (intro add64_id) linarith+
  have a2: "add64 cand nl = cand + nl"
    using cand assms nl by (intro add64_id) linarith+
  show ?thesis
    unfolding NextAlignedPowerOfTwo_def cand_def [symmetric]
    using m low e r a1 a2 by (simp add: cand_def [symmetric])
qed

lemma nextLowestPowerOfTwo_pow2:
  assumes "nextLowestPowerOfTwo v = Ret nl" "1 \<le> v"
  shows "\<exists>j\<le>62. nl = 2 ^ j \<and> nl \<le> v \<and> v < 2 * nl"
proof (cases "v \<le> 2 ^ 62")
  case True
  from nextLowestPowerOfTwo_Ret [OF assms(2) True] assms(1) show ?thesis by auto
next
  case False
  then have "nextPowerOfTwo v = Diverge" by (intro nextPowerOfTwo_Diverge) simp
  with assms(1) show ?thesis by (simp add: nextLowestPowerOfTwo_def)
qed

lemma roundUpBy_dvd:
  assumes "roundUpBy c (2 ^ j) = Ret c'" "j \<le> 63"
  shows "2 ^ j dvd c'"
proof (cases "c = 0 \<or> go_rem c (2 ^ j) = 0")
  case True
  with assms(1) have "c' = c"
    by (auto simp: roundUpBy_def go_mod_def split: if_splits)
  with True show ?thesis by (auto simp: go_rem_eq_0_iff)
next
  case False
  with assms(1) have "c' = wrap64 (add64 (go_quot c (2 ^ j)) 1 * 2 ^ j)"
    by (auto simp: roundUpBy_def go_mod_def go_div_def mul64_def split: if_splits)
  then show ?thesis using assms(2) by (simp add: wrap64_dvd)
qed


section \<open>The aligner in range\<close>

lemma aligner_bounds:
  assumes "0 \<le> cursor" and "1 \<le> msgLen" and "k = 2 ^ n"
    and "cursor + k < 2 ^ 63" and "cursor + 2 * msgLen < 2 ^ 63"
  shows "\<exists>s b. NextAlignedPowerOfTwo cursor msgLen k = Ret (s, b)
           \<and> cursor \<le> s \<and> s \<le> (cursor div k + 1) * k"
proof -
  have "msgLen \<le> 2 ^ 62" using assms(1,5) by simp
  from nextLowestPowerOfTwo_Ret [OF assms(2) this]
  obtain j where j: "2 ^ j \<le> msgLen" "msgLen < 2 * 2 ^ j" by auto
  define nl :: int where "nl = 2 ^ j"
  have nl: "0 < nl" "nl \<le> msgLen" "msgLen < 2 * nl" using j by (simp_all add: nl_def)
  have k: "0 < k" using assms(3) by simp
  note r = aligner_Ret [OF assms(1,3,4,5) nl_def nl(2,3)]
  define cand where "cand = (cursor + nl - 1) div nl * nl"
  define e where "e = (cursor div k + 1) * k"
  have cand: "cursor \<le> cand"
    using round_up_bounds(1) [OF nl(1), of cursor] by (simp add: cand_def)
  have e: "cursor < e"
    using row_end_bounds(1) [OF k, of cursor] by (simp add: e_def)
  show ?thesis
    unfolding r cand_def [symmetric] e_def [symmetric]
    using cand e nl assms(2) by auto
qed


section \<open>The packer in range\<close>

lemma starts_from_length: "starts_from c ms ss \<Longrightarrow> length ss = length ms"
  by (induction c ms ss rule: starts_from.induct) auto

lemma starts_from_first: "starts_from c ms ss \<Longrightarrow> ms \<noteq> [] \<Longrightarrow> c \<le> ss ! 0"
  by (cases "(c, ms, ss)" rule: starts_from.cases) auto

lemma starts_from_step:
  "starts_from c ms ss \<Longrightarrow> Suc i < length ms \<Longrightarrow> ss ! i + ms ! i \<le> ss ! Suc i"
proof (induction c ms ss arbitrary: i rule: starts_from.induct)
  case (2 c m ms s ss)
  show ?case
  proof (cases i)
    case 0
    with 2 have "ms \<noteq> []" by auto
    with 2 have "s + m \<le> ss ! 0" by (intro starts_from_first) auto
    with 0 show ?thesis by simp
  next
    case (Suc i')
    with 2 show ?thesis by auto
  qed
qed auto

lemma uint32_id: "0 \<le> x \<Longrightarrow> x < 2 ^ 32 \<Longrightarrow> uint32 x = x"
  by (simp add: uint32_def)

lemma packer_loop_in_range:
  assumes "0 \<le> cursor" and "k = 2 ^ n" and "\<forall>m\<in>set lens. 1 \<le> m"
    and "cursor + sum_list lens + k * int (length lens) \<le> 2 ^ 32"
    and "i + length lens = length arr"
  shows "\<exists>fin idx. MsgSharesUsedNIDefaults_loop cursor k i arr lens = Ret (fin, take i arr @ idx)
           \<and> starts_from cursor lens idx \<and> cursor \<le> fin \<and> fin \<le> 2 ^ 32"
  using assms
proof (induction lens arbitrary: cursor i arr)
  case Nil
  then show ?case by (intro exI [of _ cursor] exI [of _ "[]"]) simp
next
  case (Cons m ms)
  have k: "0 < k" using Cons.prems(2) by simp
  have m: "1 \<le> m" using Cons.prems(3) by simp
  define rest where "rest = sum_list ms + k * int (length ms)"
  have "0 \<le> sum_list ms" using Cons.prems(3) by (intro sum_list_nonneg) auto
  moreover have "0 \<le> k * int (length ms)" using k by simp
  ultimately have rest: "0 \<le> rest" unfolding rest_def by linarith
  have budget: "cursor + m + k + rest \<le> 2 ^ 32"
    using Cons.prems(4) by (simp add: rest_def algebra_simps)
  have "cursor + k < 2 ^ 63" "cursor + 2 * m < 2 ^ 63"
    using budget rest k m Cons.prems(1) by simp_all
  from aligner_bounds [OF Cons.prems(1) m Cons.prems(2) this]
  obtain s b where s: "NextAlignedPowerOfTwo cursor m k = Ret (s, b)"
    "cursor \<le> s" "s \<le> (cursor div k + 1) * k"
    by auto
  have sk: "s \<le> cursor + k"
    using s(3) row_end_bounds(2) [OF k, of cursor] by linarith
  have a: "add64 s m = s + m"
    using sk s(2) m budget rest Cons.prems(1) by (intro add64_id) simp_all
  have u: "uint32 s = s"
    using sk s(2) m budget rest Cons.prems(1) by (intro uint32_id) simp_all
  have i: "i < length arr" using Cons.prems(5) by simp
  have "\<exists>fin idx. MsgSharesUsedNIDefaults_loop (s + m) k (Suc i) (arr[i := s]) ms
            = Ret (fin, take (Suc i) (arr[i := s]) @ idx)
          \<and> starts_from (s + m) ms idx \<and> s + m \<le> fin \<and> fin \<le> 2 ^ 32"
  proof (rule Cons.IH)
    show "0 \<le> s + m" using s(2) m Cons.prems(1) by linarith
    show "k = 2 ^ n" by fact
    show "\<forall>m\<in>set ms. 1 \<le> m" using Cons.prems(3) by simp
    show "s + m + sum_list ms + k * int (length ms) \<le> 2 ^ 32"
      using sk budget unfolding rest_def by linarith
    show "Suc i + length ms = length (arr[i := s])" using Cons.prems(5) by simp
  qed
  then obtain fin idx where r:
    "MsgSharesUsedNIDefaults_loop (s + m) k (Suc i) (arr[i := s]) ms
       = Ret (fin, take (Suc i) (arr[i := s]) @ idx)"
    "starts_from (s + m) ms idx" "s + m \<le> fin" "fin \<le> 2 ^ 32"
    by auto
  have t: "take (Suc i) (arr[i := s]) = take i arr @ [s]"
    using i by (simp add: take_Suc_conv_app_nth)
  show ?case
  proof (intro exI [of _ fin] exI [of _ "s # idx"] conjI)
    show "MsgSharesUsedNIDefaults_loop cursor k i arr (m # ms) = Ret (fin, take i arr @ s # idx)"
      using s(1) a u r(1) t by simp
    show "starts_from cursor (m # ms) (s # idx)" using s(2) r(2) by simp
    show "cursor \<le> fin" using s(2) m r(3) by linarith
    show "fin \<le> 2 ^ 32" by fact
  qed
qed


section \<open>The splitter and the packer in step\<close>

lemma split_loop_packer_loop:
  assumes "SplitMessagesUsingNIDefaults_loop cd cursor k idxs sp msgs = Ret (raw, out, None)"
    and "i + length msgs = length arr"
  shows "\<exists>new fin. out = Some (idxs @ new)
           \<and> MsgSharesUsedNIDefaults_loop cursor k i arr
                (map (\<lambda>m. MsgSharesUsed cd (int (length (Data m)))) msgs)
              = Ret (fin, take i arr @ new)"
  using assms
proof (induction msgs arbitrary: cursor idxs sp i arr)
  case Nil
  then show ?case by simp
next
  case (Cons msg msgs)
  define msgShares where "msgShares = MsgSharesUsed cd (int (length (Data msg)))"
  from Cons.prems(1) obtain row where row: "go_div cursor k = Ret row" "\<not> k < row"
    by (cases "go_div cursor k") (auto split: if_splits)
  with Cons.prems(1) obtain nc b where
    nc: "NextAlignedPowerOfTwo cursor msgShares k = Ret (nc, b)"
    by (cases "NextAlignedPowerOfTwo cursor msgShares k") (auto simp: msgShares_def Let_def)
  with row Cons.prems(1) have rec:
    "SplitMessagesUsingNIDefaults_loop cd (add64 nc msgShares) k (idxs @ [uint32 nc])
       (Write cd msg (WriteNamespacedPaddedShares cd (sub64 nc cursor) sp)) msgs
     = Ret (raw, out, None)"
    by (simp add: msgShares_def Let_def)
  have i: "i < length arr" using Cons.prems(2) by simp
  have "Suc i + length msgs = length (arr[i := uint32 nc])" using Cons.prems(2) by simp
  from Cons.IH [OF rec this]
  obtain new fin where r: "out = Some ((idxs @ [uint32 nc]) @ new)"
    "MsgSharesUsedNIDefaults_loop (add64 nc msgShares) k (Suc i) (arr[i := uint32 nc])
       (map (\<lambda>m. MsgSharesUsed cd (int (length (Data m)))) msgs)
     = Ret (fin, take (Suc i) (arr[i := uint32 nc]) @ new)"
    by auto
  have t: "take (Suc i) (arr[i := uint32 nc]) = take i arr @ [uint32 nc]"
    using i by (simp add: take_Suc_conv_app_nth)
  show ?case
    using r nc t by (intro exI [of _ "uint32 nc # new"] exI [of _ fin]) (simp add: msgShares_def)
qed






section \<open>The splitter returns\<close>




section \<open>The claims\<close>

subsection \<open>C1: the postcondition of the aligner\<close>

text \<open>
  C1, as amended.  Let \<open>cursor\<close> be non-negative, \<open>k\<close> a power of two and
  \<open>msgLen \<ge> 1\<close>, with \<open>cursor + k\<close> and \<open>cursor + 2 * msgLen\<close> below \<open>2^63\<close>, and let
  \<open>nextLowest\<close> be the largest power of two that is at most \<open>msgLen\<close> (the power of
  two with \<open>nextLowest \<le> msgLen < 2 * nextLowest\<close>).  Then
  \<open>NextAlignedPowerOfTwo(cursor, msgLen, k)\<close> returns what the specification says:
  \<open>(cursor, true)\<close> at a row start; otherwise \<open>(candidate, true)\<close> if
  \<open>candidate + msgLen \<le> endOfRow\<close>, else \<open>(candidate, false)\<close> if
  \<open>candidate + nextLowest \<le> endOfRow\<close>, else \<open>(endOfRow, false)\<close>.
\<close>

theorem C1_aligner_postcondition_in_range:
  assumes "0 \<le> cursor" and "k = 2 ^ n"
    and "nextLowest = 2 ^ j" and "nextLowest \<le> msgLen" and "msgLen < 2 * nextLowest"
    and "cursor + k < 2 ^ 63" and "cursor + 2 * msgLen < 2 ^ 63"
  shows "NextAlignedPowerOfTwo cursor msgLen k =
           Ret (aligned_start_spec cursor msgLen k nextLowest)"
  using aligner_Ret [OF assms(1,2,6,7,3,4,5)]
  by (simp add: aligned_start_spec_def Let_def)

text \<open>
  The theorem at cursor 5, message length 3 and \<open>k = 8\<close>: the candidate is 6, the
  message does not fit in the row that ends at 8, its first two shares do.
\<close>

theorem C1_aligner_postcondition_in_range_witness:
  "(0::int) \<le> 5 \<and> (8::int) = 2 ^ 3 \<and> (2::int) = 2 ^ 1 \<and> (2::int) \<le> 3 \<and> (3::int) < 2 * 2
     \<and> (5::int) + 8 < 2 ^ 63 \<and> (5::int) + 2 * 3 < 2 ^ 63
     \<and> NextAlignedPowerOfTwo 5 3 8 = Ret (aligned_start_spec 5 3 8 2)
     \<and> aligned_start_spec 5 3 8 2 = (6, False)"
  using C1_aligner_postcondition_in_range [of 5 8 3 2 1 3]
  by (simp add: aligned_start_spec_def)

text \<open>
  C1 as stated fails for a message length of 0, which is a non-negative length: away
  from a row start \<open>nextLowestPowerOfTwo(0)\<close> is 0 and \<open>roundUpBy\<close> divides by it.
  It also fails where the 64-bit sums wrap: for cursor 3, message length \<open>2^62\<close> and
  \<open>k = 4\<close> the candidate is \<open>2^62\<close>, \<open>candidate + msgLen\<close> wraps to \<open>-2^63\<close>, and the
  code answers \<open>(2^62, true)\<close> where the specification gives \<open>(4, false)\<close>.
\<close>

theorem C1_aligner_postcondition_counterexample:
  "NextAlignedPowerOfTwo 5 0 4 = Panic DivideByZero
   \<and> NextAlignedPowerOfTwo 3 (2 ^ 62) 4 = Ret (2 ^ 62, True)
   \<and> aligned_start_spec 3 (2 ^ 62) 4 (2 ^ 62) = (4, False)"
  by code_simp

subsection \<open>C2: the splitter and the packer agree on the start indexes\<close>

text \<open>
  C2, as amended.  Whenever \<open>SplitMessagesUsingNIDefaults(cursor, k, msgs)\<close> returns
  without an error, \<open>MsgSharesUsedNIDefaults(cursor, k, lens)\<close> returns too, for
  \<open>lens[i] = MsgSharesUsed(len(msgs[i].Data))\<close>, and the splitter's index list is
  \<open>uint32(cursor)\<close>, the input cursor reduced to its low 32 bits, put in front of the
  packer's index list.  For \<open>0 \<le> cursor < 2^32\<close> the first entry is the input cursor
  itself.
\<close>

theorem C2_splitter_agrees_with_packer:
  assumes "SplitMessagesUsingNIDefaults cd cursor k msgs = Ret (rawShares, indexes, None)"
  shows "\<exists>sharesUsed packerIndexes.
           MsgSharesUsedNIDefaults cursor k
             (map (\<lambda>m. MsgSharesUsed cd (int (length (Data m)))) msgs)
           = Ret (sharesUsed, packerIndexes)
         \<and> indexes = Some (uint32 cursor # packerIndexes)
         \<and> (0 \<le> cursor \<and> cursor < 2 ^ 32 \<longrightarrow> indexes = Some (cursor # packerIndexes))"
proof -
  let ?lens = "map (\<lambda>m. MsgSharesUsed cd (int (length (Data m)))) msgs"
  have "0 + length msgs = length (replicate (length ?lens) (0::int))" by simp
  from split_loop_packer_loop [OF assms [unfolded SplitMessagesUsingNIDefaults_def] this]
  obtain new fin where r: "indexes = Some ([uint32 cursor] @ new)"
    "MsgSharesUsedNIDefaults_loop cursor k 0 (replicate (length ?lens) 0) ?lens
       = Ret (fin, take 0 (replicate (length ?lens) 0) @ new)"
    by blast
  then show ?thesis
    by (auto simp: MsgSharesUsedNIDefaults_def uint32_id)
qed

text \<open>
  The theorem for two messages of 9 and 2 bytes (3 shares and 1 share) at cursor 1 in a
  square of size 4: the splitter returns the indexes 1, 2, 5 and the packer 2, 5.
\<close>

theorem C2_splitter_agrees_with_packer_witness:
  "SplitMessagesUsingNIDefaults example_codec 1 4 [example_message 9, example_message 2]
       = Ret (Some [[], replicate 9 0, replicate 2 0], Some [1, 2, 5], None)
   \<and> (0::int) \<le> 1 \<and> (1::int) < 2 ^ 32
   \<and> (\<exists>sharesUsed packerIndexes.
         MsgSharesUsedNIDefaults 1 4
           (map (\<lambda>m. MsgSharesUsed example_codec (int (length (Data m))))
              [example_message 9, example_message 2])
         = Ret (sharesUsed, packerIndexes)
       \<and> Some [1, 2, 5] = Some (1 # packerIndexes))"
proof -
  have good: "SplitMessagesUsingNIDefaults example_codec 1 4 [example_message 9, example_message 2]
      = Ret (Some [[], replicate 9 0, replicate 2 0], Some [1, 2, 5], None)"
    by code_simp
  from C2_splitter_agrees_with_packer [OF good] good show ?thesis by simp
qed

text \<open>
  C2 as stated fails in its last part: the first index entry is not always the input
  cursor.  The entry is a \<open>uint32\<close>, and for the cursor \<open>2^32\<close> (with no messages, in a
  square of size 1) it is 0.
\<close>

theorem C2_splitter_agrees_with_packer_counterexample:
  "SplitMessagesUsingNIDefaults example_codec (2 ^ 32) 1 [] = Ret (Some [], Some [0], None)
   \<and> (0::int) \<noteq> 2 ^ 32"
  by code_simp

subsection \<open>C3: a start that fits whole is aligned\<close>

text \<open>
  C3, as amended.  Let \<open>cursor\<close> be non-negative, \<open>msgLen \<ge> 1\<close> and \<open>k\<close> a power of
  two.  Whenever \<open>NextAlignedPowerOfTwo(cursor, msgLen, k)\<close> returns \<open>(s, true)\<close> and
  either the cursor is not at a row start (\<open>cursor % k \<noteq> 0\<close>) or
  \<open>nextLowestPowerOfTwo(msgLen) \<le> k\<close>, the start \<open>s\<close> is divisible by
  \<open>nextLowestPowerOfTwo(msgLen)\<close>.
\<close>

theorem C3_whole_fit_start_divisible:
  assumes "0 \<le> cursor" and "1 \<le> msgLen" and "k = 2 ^ n"
    and "NextAlignedPowerOfTwo cursor msgLen k = Ret (s, True)"
    and "nextLowestPowerOfTwo msgLen = Ret nextLowest"
    and "cursor mod k \<noteq> 0 \<or> nextLowest \<le> k"
  shows "nextLowest dvd s"
proof -
  from nextLowestPowerOfTwo_pow2 [OF assms(5,2)]
  obtain j where j: "j \<le> 62" "nextLowest = 2 ^ j" by auto
  have k: "0 < k" using assms(3) by simp
  have m: "go_mod cursor k = Ret (cursor mod k)"
    using assms(1) k by (simp add: go_mod_def go_rem_nonneg)
  show ?thesis
  proof (cases "cursor mod k = 0")
    case True
    with assms(4) m have s: "s = cursor"
      by (auto simp: NextAlignedPowerOfTwo_def split: if_splits)
    from True assms(6) have "(2::int) ^ j \<le> 2 ^ n" by (simp add: j assms(3))
    then have "j \<le> n" by (simp only: power_increasing_iff) 
    then have "nextLowest dvd k" unfolding j assms(3) by (rule le_imp_power_dvd)
    moreover have "k dvd cursor" using True by (simp add: mod_eq_0_iff_dvd)
    ultimately show ?thesis unfolding s by (rule dvd_trans)
  next
    case False
    then have c0: "cursor \<noteq> 0" by auto
    show ?thesis
    proof (cases "roundUpBy cursor nextLowest")
      case (Ret c')
      with assms(4) False c0 m assms(5) k have "s = c'"
        by (auto simp: NextAlignedPowerOfTwo_def go_div_def Let_def split: if_splits)
      moreover have "2 ^ j dvd c'"
        using Ret j by (intro roundUpBy_dvd [of cursor]) auto
      ultimately show ?thesis by (simp add: j)
    next
      case (Panic p)
      with assms(4) False c0 m assms(5) k show ?thesis
        by (auto simp: NextAlignedPowerOfTwo_def go_div_def Let_def split: if_splits)
    next
      case Diverge
      with assms(4) False c0 m assms(5) k show ?thesis
        by (auto simp: NextAlignedPowerOfTwo_def go_div_def Let_def split: if_splits)
    qed
  qed
qed

text \<open>
  The theorem at cursor 5, message length 2 and \<open>k = 8\<close>: the start is 6.
\<close>

theorem C3_whole_fit_start_divisible_witness:
  "(0::int) \<le> 5 \<and> (1::int) \<le> 2 \<and> (8::int) = 2 ^ 3
    \<and> NextAlignedPowerOfTwo 5 2 8 = Ret (6, True)
    \<and> nextLowestPowerOfTwo 2 = Ret 2
    \<and> (5::int) mod 8 = 5 \<and> (2::int) \<le> 8
    \<and> (2::int) dvd 6"
proof -
  have a: "NextAlignedPowerOfTwo 5 2 8 = Ret (6, True)" by code_simp
  have b: "nextLowestPowerOfTwo 2 = Ret 2" by code_simp
  from C3_whole_fit_start_divisible [of 5 2 8 3 6 2] a b show ?thesis by simp
qed

text \<open>
  C3 as stated fails at a row start for a message longer than the row: for cursor 4,
  message length 8 and \<open>k = 4\<close> the aligner returns \<open>(4, true)\<close> without looking at
  the message length, \<open>nextLowestPowerOfTwo(8)\<close> is 8, and 8 does not divide 4.  For a
  message length of 0 \<open>nextLowestPowerOfTwo\<close> gives 0, which divides no start but 0.
\<close>

theorem C3_whole_fit_start_divisible_counterexample:
  "NextAlignedPowerOfTwo 4 8 4 = Ret (4, True)
    \<and> nextLowestPowerOfTwo 8 = Ret 8 \<and> \<not> (8::int) dvd 4
    \<and> NextAlignedPowerOfTwo 4 0 4 = Ret (4, True)
    \<and> nextLowestPowerOfTwo 0 = Ret 0 \<and> \<not> (0::int) dvd 4"
  by code_simp

subsection \<open>C4: totality of the sizing and alignment computations\<close>

text \<open>
  C4 at its failing inputs.  For a message length of 0 \<open>nextLowestPowerOfTwo\<close>
  returns 0, \<open>roundUpBy(1, 0)\<close> computes \<open>1 % 0\<close>, and the aligner, the packer and
  \<open>FitsInSquare\<close> all stop with Go's "integer divide by zero" panic at cursor 1 in a
  square of size 2.  For an argument above \<open>2^62\<close> the loop of \<open>nextPowerOfTwo\<close>
  shifts its counter to \<open>-2^63\<close> and then to 0, and never ends.
\<close>

theorem C4_totality_fails:
  "nextLowestPowerOfTwo 0 = Ret 0
   \<and> roundUpBy 1 0 = Panic DivideByZero
   \<and> NextAlignedPowerOfTwo 1 0 2 = Panic DivideByZero
   \<and> MsgSharesUsedNIDefaults 1 2 [0] = Panic DivideByZero
   \<and> FitsInSquare 1 2 [0] = Panic DivideByZero
   \<and> nextPowerOfTwo (2 ^ 62 + 1) = Diverge"
proof -
  have "nextPowerOfTwo (2 ^ 62 + 1) = Diverge"
    by (rule nextPowerOfTwo_Diverge) simp
  moreover have "nextLowestPowerOfTwo 0 = Ret 0" by code_simp
  moreover have "roundUpBy 1 0 = Panic DivideByZero" by code_simp
  moreover have "NextAlignedPowerOfTwo 1 0 2 = Panic DivideByZero" by code_simp
  moreover have "MsgSharesUsedNIDefaults 1 2 [0] = Panic DivideByZero" by code_simp
  moreover have "FitsInSquare 1 2 [0] = Panic DivideByZero" by code_simp
  ultimately show ?thesis by blast
qed

subsection \<open>C5: the capacity boundary of FitsInSquare\<close>

text \<open>
  C5.  In a square of size 4, starting at cursor 0: no messages fit, one message of 16
  shares fits (it fills the 16 shares exactly), one message of 17 shares does not.
\<close>

theorem C5_fits_in_square_boundary:
  "FitsInSquare 0 4 [] = Ret True
   \<and> FitsInSquare 0 4 [16] = Ret True
   \<and> FitsInSquare 0 4 [17] = Ret False"
  by code_simp

subsection \<open>C6: the aligner at cursor 3, message length 2, square size 4\<close>

text \<open>
  C6 as stated fails: \<open>NextAlignedPowerOfTwo(3, 2, 4)\<close> does not return \<open>(4, true)\<close>.
\<close>

theorem C6_aligner_scenario_counterexample:
  "NextAlignedPowerOfTwo 3 2 4 \<noteq> Ret (4, True)"
  by code_simp

text \<open>
  C6, as amended.  \<open>NextAlignedPowerOfTwo(3, 2, 4)\<close> returns \<open>(4, false)\<close>: the
  candidate is 4, the end of the current row, so none of the message fits on the row of
  the cursor; the start is the beginning of the next row and the boolean, which tells
  whether the whole message fits on the row of the cursor, is false.
\<close>

theorem C6_aligner_scenario_amended:
  "NextAlignedPowerOfTwo 3 2 4 = Ret (4, False)"
  by code_simp

subsection \<open>C7: the packer's start indexes grow\<close>

text \<open>
  C7, as amended.  Let \<open>cursor\<close> be non-negative, \<open>k\<close> a power of two and every
  message share-length positive, with
  \<open>cursor + sum(msgShareLens) + k * len(msgShareLens) \<le> 2^32\<close>, so that no start index
  leaves the range of \<open>uint32\<close>.  Then \<open>MsgSharesUsedNIDefaults\<close> returns one index for
  each message, \<open>indexes[0] \<ge> cursor\<close>, and \<open>indexes[i+1] \<ge> indexes[i] + msgShareLens[i]\<close>
  for every \<open>i\<close>: each start is at or after the cursor at the time its message is
  considered, and the indexes are non-decreasing.
\<close>

theorem C7_packer_indexes_monotone_in_range:
  assumes "0 \<le> cursor" and "k = 2 ^ n" and "\<forall>m\<in>set msgShareLens. 1 \<le> m"
    and "cursor + sum_list msgShareLens + k * int (length msgShareLens) \<le> 2 ^ 32"
  shows "\<exists>sharesUsed indexes.
           MsgSharesUsedNIDefaults cursor k msgShareLens = Ret (sharesUsed, indexes)
         \<and> length indexes = length msgShareLens
         \<and> (msgShareLens \<noteq> [] \<longrightarrow> cursor \<le> indexes ! 0)
         \<and> (\<forall>i. Suc i < length msgShareLens \<longrightarrow>
               indexes ! i + msgShareLens ! i \<le> indexes ! Suc i)
         \<and> sorted indexes"
proof -
  from packer_loop_in_range [OF assms, of 0 "replicate (length msgShareLens) 0"]
  obtain fin idx where r:
    "MsgSharesUsedNIDefaults_loop cursor k 0 (replicate (length msgShareLens) 0) msgShareLens
       = Ret (fin, idx)"
    "starts_from cursor msgShareLens idx"
    by auto
  have len: "length idx = length msgShareLens" using r(2) by (rule starts_from_length)
  have step: "idx ! i + msgShareLens ! i \<le> idx ! Suc i" if "Suc i < length msgShareLens" for i
    using r(2) that by (rule starts_from_step)
  have "idx ! i \<le> idx ! Suc i" if "Suc i < length idx" for i
  proof -
    have "msgShareLens ! i \<in> set msgShareLens" using that len by simp
    then have "1 \<le> msgShareLens ! i" using assms(3) by blast
    with step [of i] that len show ?thesis by simp
  qed
  then have "sorted idx" by (simp add: sorted_iff_nth_Suc)
  with r len step starts_from_first [OF r(2)] show ?thesis
    by (simp add: MsgSharesUsedNIDefaults_def)
qed

text \<open>
  The theorem for the share-lengths 3, 5, 2, 1, 9 at cursor 1 in a square of size 4.
\<close>

theorem C7_packer_indexes_monotone_in_range_witness:
  "(0::int) \<le> 1 \<and> (4::int) = 2 ^ 2
    \<and> (1::int) \<le> 3 \<and> (1::int) \<le> 5 \<and> (1::int) \<le> 2 \<and> (1::int) \<le> 1 \<and> (1::int) \<le> 9
    \<and> (1::int) + sum_list [3, 5, 2, 1, 9] + 4 * int (length [3, 5, 2, 1, 9::int]) \<le> 2 ^ 32
    \<and> MsgSharesUsedNIDefaults 1 4 [3, 5, 2, 1, 9] = Ret (28, [2, 8, 14, 16, 20])
    \<and> sorted [2, 8, 14, 16, 20::int]"
proof -
  have "MsgSharesUsedNIDefaults 1 4 [3, 5, 2, 1, 9] = Ret (28, [2, 8, 14, 16, 20])"
    by code_simp
  with C7_packer_indexes_monotone_in_range [of 1 4 2 "[3, 5, 2, 1, 9]"] show ?thesis
    by simp
qed

text \<open>
  C7 as stated fails once a start index passes \<open>2^32\<close>: the indexes are stored as
  \<open>uint32\<close>.  For cursor \<open>2^32 - 1\<close>, \<open>k = 1\<close> and two messages of one share the
  indexes are \<open>2^32 - 1\<close> and 0.
\<close>

theorem C7_packer_indexes_monotone_counterexample:
  "MsgSharesUsedNIDefaults (2 ^ 32 - 1) 1 [1, 1] = Ret (2, [2 ^ 32 - 1, 0])
    \<and> \<not> ([2 ^ 32 - 1, 0::int] ! 0 + [1, 1] ! 0 \<le> [2 ^ 32 - 1, 0] ! Suc 0)
    \<and> \<not> sorted [2 ^ 32 - 1, 0::int]"
  by code_simp

subsection \<open>C8: the error of the splitter\<close>




subsection \<open>C9: the start never passes the beginning of the next row\<close>

text \<open>
  C9, as amended.  Let \<open>cursor\<close> be non-negative, \<open>msgLen \<ge> 1\<close> and \<open>k\<close> a power of
  two, with \<open>cursor + k\<close> and \<open>cursor + 2 * msgLen\<close> below \<open>2^63\<close>.  Then
  \<open>NextAlignedPowerOfTwo(cursor, msgLen, k)\<close> returns, and the start it returns is at
  most \<open>((cursor / k) + 1) * k\<close>, the beginning of the next row.
\<close>

theorem C9_start_within_next_row_start:
  assumes "0 \<le> cursor" and "1 \<le> msgLen" and "k = 2 ^ n"
    and "cursor + k < 2 ^ 63" and "cursor + 2 * msgLen < 2 ^ 63"
  shows "\<exists>s b. NextAlignedPowerOfTwo cursor msgLen k = Ret (s, b)
           \<and> s \<le> (cursor div k + 1) * k"
  using aligner_bounds [OF assms] by blast

text \<open>
  The theorem at cursor 3, message length 9 and \<open>k = 4\<close>, where the candidate 8 lies
  beyond the end of the row.
\<close>

theorem C9_start_within_next_row_start_witness:
  "(0::int) \<le> 3 \<and> (1::int) \<le> 9 \<and> (4::int) = 2 ^ 2
    \<and> (3::int) + 4 < 2 ^ 63 \<and> (3::int) + 2 * 9 < 2 ^ 63
    \<and> (\<exists>s b. NextAlignedPowerOfTwo 3 9 4 = Ret (s, b) \<and> s \<le> (3 div 4 + 1) * 4)"
  using C9_start_within_next_row_start [of 3 9 4 2] by simp

text \<open>
  C9 as stated fails where the 64-bit sum wraps: for cursor 1, message length \<open>2^62\<close>
  and \<open>k = 2\<close> the candidate is \<open>2^62\<close>, \<open>candidate + msgLen\<close> wraps to \<open>-2^63\<close>,
  which is below the end of the row, and the aligner returns the start \<open>2^62\<close>, far
  beyond the next row start 2.
\<close>

theorem C9_start_within_next_row_start_counterexample:
  "NextAlignedPowerOfTwo 1 (2 ^ 62) 2 = Ret (2 ^ 62, True)
    \<and> \<not> (2::int) ^ 62 \<le> (1 div 2 + 1) * 2"
  by code_simp

subsection \<open>C10: FitsInSquare with no messages\<close>

text \<open>
  C10.  For a power of two \<open>k\<close> and every cursor with \<open>cursor / k \<le> k\<close>,
  \<open>FitsInSquare(cursor, k)\<close> with no message lengths returns true.  In particular it
  returns true for the cursor \<open>k^2 + k - 1\<close> (an \<open>int\<close> for \<open>k \<le> 2^31\<close>), which lies
  outside the square of \<open>k^2\<close> shares, and strictly beyond \<open>k^2\<close> when \<open>k \<ge> 2\<close>.
\<close>

theorem C10_empty_list_fits:
  assumes "k = 2 ^ n"
  shows "(go_quot cursor k \<le> k \<longrightarrow> FitsInSquare cursor k [] = Ret True)
     \<and> (n \<le> 31 \<longrightarrow> FitsInSquare (k * k + k - 1) k [] = Ret True \<and> k * k \<le> k * k + k - 1)
     \<and> (1 \<le> n \<and> n \<le> 31 \<longrightarrow> k * k < k * k + k - 1)"
proof -
  have k: "0 < k" using assms by simp
  have 1: "go_quot cursor k \<le> k \<longrightarrow> FitsInSquare cursor k [] = Ret True"
    using k by (simp add: FitsInSquare_def go_div_def)
  have 2: "FitsInSquare (k * k + k - 1) k [] = Ret True" if "n \<le> 31"
  proof -
    have "(2::int) ^ n \<le> 2 ^ 31" using that by (intro power_increasing) auto
    then have k31: "k \<le> 2 ^ 31" by (simp add: assms)
    then have "k * k \<le> 2 ^ 31 * 2 ^ 31" using k by (intro mult_mono) auto
    then have "k * k + k - 1 < 2 ^ 63" using k31 by simp
    moreover have "0 \<le> k * k" by simp
    then have "0 \<le> k * k + k - 1" using k by linarith
    ultimately have q: "go_quot (k * k + k - 1) k = (k * k + k - 1) div k"
      using k by (intro go_quot_nonneg) auto
    have "(k * k + (k - 1)) div k = k + (k - 1) div k"
      using k by (subst div_mult_self4) simp_all
    also have "(k - 1) div k = 0" using k by simp
    finally have "(k * k + k - 1) div k = k" by (simp add: algebra_simps)
    with q show ?thesis using k by (simp add: FitsInSquare_def go_div_def)
  qed
  have 3: "k * k \<le> k * k + k - 1" using k by simp
  have 4: "k * k < k * k + k - 1" if "1 \<le> n"
  proof -
    have "(2::int) ^ 1 \<le> 2 ^ n" using that by (intro power_increasing) auto
    then show ?thesis by (simp add: assms)
  qed
  from 1 2 3 4 show ?thesis by blast
qed

text \<open>
  The theorem for \<open>k = 4\<close>: the cursor 19 is outside the 16 shares of the square.
\<close>

theorem C10_empty_list_fits_witness:
  "(4::int) = 2 ^ 2
    \<and> go_quot 19 4 \<le> 4 \<and> FitsInSquare 19 4 [] = Ret True
    \<and> (2::nat) \<le> 31 \<and> FitsInSquare (4 * 4 + 4 - 1) 4 [] = Ret True
    \<and> (4::int) * 4 < 4 * 4 + 4 - 1"
proof -
  have "go_quot 19 4 \<le> 4" by code_simp
  with C10_empty_list_fits [of 4 2 19] show ?thesis by simp
qed

end
